theory Spec2Isabelle
  imports Main "HOL-Library.Multiset"
begin

section \<open>Strings and characters\<close>

text \<open>
  The component works on JavaScript strings. A text is modelled as a \<open>string\<close>: a list
  of code units below 256 (the Latin-1 part of UTF-16), each read through its number.
  All character classes of the source (\<open>[^a-zA-Z0-9]\<close>, the word characters of \<open>\b\<close>,
  the white space of \<open>trim\<close>) and both case mappings are written out on that range.
\<close>

definition code :: "char \<Rightarrow> nat" where
  "code c = of_char c"

definition isDigit :: "char \<Rightarrow> bool" where
  "isDigit c = (48 \<le> code c \<and> code c \<le> 57)"

definition isLower :: "char \<Rightarrow> bool" where
  "isLower c = (97 \<le> code c \<and> code c \<le> 122)"

definition isUpper :: "char \<Rightarrow> bool" where
  "isUpper c = (65 \<le> code c \<and> code c \<le> 90)"

definition isAlnum :: "char \<Rightarrow> bool" where
  \<comment> \<open>the class \<open>[a-zA-Z0-9]\<close> of line 42\<close>
  "isAlnum c = (isLower c \<or> isUpper c \<or> isDigit c)"

definition isWordChar :: "char \<Rightarrow> bool" where
  \<comment> \<open>the word characters of \<open>\b\<close> in a pattern without the unicode flag: \<open>[A-Za-z0-9_]\<close>\<close>
  "isWordChar c = (isAlnum c \<or> code c = 95)"

definition isWhiteSpace :: "char \<Rightarrow> bool" where
  \<comment> \<open>what \<open>trim\<close> strips: TAB, LF, VT, FF, CR, SP and NBSP (of the code units below 256)\<close>
  "isWhiteSpace c = (code c \<in> {9, 10, 11, 12, 13, 32, 160})"

definition toLowerCaseChar :: "char \<Rightarrow> char" where
  \<comment> \<open>\<open>A-Z\<close> and the Latin-1 capitals \<open>U+00C0..U+00DE\<close> (not the sign \<open>U+00D7\<close>) move by 32\<close>
  "toLowerCaseChar c =
     (if isUpper c \<or> (192 \<le> code c \<and> code c \<le> 222 \<and> code c \<noteq> 215)
      then char_of (code c + 32) else c)"

definition toLowerCase :: "string \<Rightarrow> string" where
  "toLowerCase s = map toLowerCaseChar s"

definition canonicalize :: "char \<Rightarrow> nat" where
  \<comment> \<open>The case folding of an ignore-case pattern without the unicode flag: the code unit of
      the upper-case form when that is one code unit, except that a code unit from 128 on is
      never folded below 128. \<open>U+00DF\<close> has a two-letter upper case and stays; \<open>U+00FF\<close> and
      \<open>U+00B5\<close> have theirs above 255.\<close>
  "canonicalize c =
     (if isLower c \<or> (224 \<le> code c \<and> code c \<le> 254 \<and> code c \<noteq> 247) then code c - 32
      else if code c = 255 then 376
      else if code c = 181 then 924
      else code c)"

section \<open>Tokenizer\<close>

text \<open>
  \<open>split(/[^a-zA-Z0-9]+/)\<close>: the pieces between the maximal runs of separators. A run
  at the start or at the end leaves an empty piece there, and the empty text gives one
  empty piece; \<open>filter(Boolean)\<close> then drops the empty pieces.
\<close>

fun split :: "string \<Rightarrow> string list" where
  "split [] = [[]]"
| "split (c # cs) =
     (if isAlnum c then (case split cs of [] \<Rightarrow> [[c]] | p # ps \<Rightarrow> (c # p) # ps)
      else (case cs of
              [] \<Rightarrow> [[], []]
            | d # ds \<Rightarrow> if isAlnum d then [] # split cs else split cs))"

definition words :: "string \<Rightarrow> string list" where
  \<comment> \<open>lines 40-43\<close>
  "words input = filter (\<lambda>w. w \<noteq> []) (split (toLowerCase input))"

definition stopWords :: "string list" where
  \<comment> \<open>lines 24-28\<close>
  "stopWords =
    [''the'', ''and'', ''a'', ''to'', ''of'', ''in'', ''that'', ''it'', ''is'', ''was'',
     ''for'', ''on'', ''with'', ''as'', ''by'', ''at'', ''from'', ''or'', ''an'', ''be'',
     ''this'', ''which'', ''but'', ''not'', ''are'', ''have'', ''has'', ''had'']"

definition has :: "string list \<Rightarrow> string \<Rightarrow> bool" where
  "has s w = (w \<in> set s)"

section \<open>The frequency object\<close>

text \<open>
  \<open>freq\<close> is a plain object literal \<open>{}\<close>: its own properties, kept in the order of
  their creation, and behind them the properties it inherits from \<open>Object.prototype\<close>.
  A token is a non-empty run of \<open>a-z\<close> and \<open>0-9\<close>; the only inherited property name of
  that shape is \<open>constructor\<close>, whose value is the function \<open>Object\<close>.

  The values that \<open>(freq[w] || 0) + 1\<close> meets and makes: a number; the function
  \<open>Object\<close>; and the string that \<open>+\<close> makes of that function, which is its source text
  followed by one \<open>1\<close> for each addition (\<open>CtorText k\<close> has \<open>k\<close> of them).
\<close>

datatype jsval = Num nat | ObjectCtor | CtorText nat

type_synonym jsobject = "(string \<times> jsval) list"

definition objectCtorSource :: string where
  "objectCtorSource = ''function Object() { [native code] }''"

fun textOf :: "jsval \<Rightarrow> string option" where
  \<comment> \<open>the string a value is, if it is one\<close>
  "textOf (CtorText k) = Some (objectCtorSource @ replicate k (CHR ''1''))"
| "textOf _ = None"

definition inherited :: "string \<Rightarrow> jsval option" where
  "inherited w = (if w = ''constructor'' then Some ObjectCtor else None)"

definition getProp :: "jsobject \<Rightarrow> string \<Rightarrow> jsval option" where
  \<comment> \<open>\<open>freq[w]\<close>: the own property, else the inherited one, else undefined (\<open>None\<close>)\<close>
  "getProp obj w = (case map_of obj w of Some v \<Rightarrow> Some v | None \<Rightarrow> inherited w)"

fun orZero :: "jsval option \<Rightarrow> jsval" where
  \<comment> \<open>\<open>v || 0\<close>: undefined and the number 0 are falsy; a function and a non-empty string are not\<close>
  "orZero None = Num 0"
| "orZero (Some (Num k)) = (if k = 0 then Num 0 else Num k)"
| "orZero (Some v) = v"

fun plusOne :: "jsval \<Rightarrow> jsval" where
  \<comment> \<open>\<open>v + 1\<close>: addition on a number, concatenation of \<open>1\<close> on a function or a string\<close>
  "plusOne (Num k) = Num (Suc k)"
| "plusOne ObjectCtor = CtorText 1"
| "plusOne (CtorText k) = CtorText (Suc k)"

fun setProp :: "jsobject \<Rightarrow> string \<Rightarrow> jsval \<Rightarrow> jsobject" where
  \<comment> \<open>\<open>freq[w] = v\<close>: an own property keeps its place, a new one is created last\<close>
  "setProp [] w v = [(w, v)]"
| "setProp ((k, u) # rest) w v =
     (if k = w then (k, v) # rest else (k, u) # setProp rest w v)"

definition countWord :: "jsobject \<Rightarrow> string \<Rightarrow> jsobject" where
  \<comment> \<open>the body of the loop, lines 46-48\<close>
  "countWord freq w =
     (if \<not> has stopWords w then setProp freq w (plusOne (orZero (getProp freq w)))
      else freq)"

definition countWords :: "string list \<Rightarrow> jsobject" where
  \<comment> \<open>lines 37 and 45-49\<close>
  "countWords ws = foldl countWord [] ws"

section \<open>Selector\<close>

text \<open>
  \<open>Object.entries\<close> lists the own properties whose name is an array index (a decimal
  numeral without leading zero, below \<open>2^32 - 1\<close>) first, in ascending numeric order, and
  then the others in the order of their creation.
\<close>

definition decimal :: "string \<Rightarrow> int" where
  "decimal w = foldl (\<lambda>a c. 10 * a + (int (code c) - 48)) 0 w"

definition isArrayIndex :: "string \<Rightarrow> bool" where
  "isArrayIndex w =
     (w \<noteq> [] \<and> list_all isDigit w \<and> (w = ''0'' \<or> hd w \<noteq> CHR ''0'')
      \<and> decimal w < 4294967295)"

definition entries :: "jsobject \<Rightarrow> (string \<times> jsval) list" where
  "entries obj =
     sort_key (\<lambda>e. decimal (fst e)) (filter (\<lambda>e. isArrayIndex (fst e)) obj)
     @ filter (\<lambda>e. \<not> isArrayIndex (fst e)) obj"

fun toNumber :: "jsval \<Rightarrow> int option" where
  \<comment> \<open>\<open>None\<close> is NaN: the source text of a function is no numeral\<close>
  "toNumber (Num k) = Some (int k)"
| "toNumber _ = None"

definition compareFn :: "string \<times> jsval \<Rightarrow> string \<times> jsval \<Rightarrow> int option" where
  \<comment> \<open>the comparator of line 53, \<open>b[1] - a[1]\<close>\<close>
  "compareFn a b =
     (case (toNumber (snd b), toNumber (snd a)) of
        (Some y, Some x) \<Rightarrow> Some (y - x)
      | _ \<Rightarrow> None)"

definition sortCompare :: "string \<times> jsval \<Rightarrow> string \<times> jsval \<Rightarrow> int" where
  \<comment> \<open>\<open>Array.prototype.sort\<close> reads a NaN from the comparator as 0\<close>
  "sortCompare a b = (case compareFn a b of None \<Rightarrow> 0 | Some v \<Rightarrow> v)"

text \<open>
  \<open>Array.prototype.sort\<close> returns a permutation of the array. Where the comparator is a
  consistent comparison, the language fixes which: the array in the order of the
  comparator, elements that compare equal in the order they had (the sort is stable). That
  is so when every value is a number, and when the comparator yields 0 on every pair. There
  \<open>sortEntries\<close>, the stable insertion sort, is that result: an element goes in front of the
  first later element that the comparator does not put before it.

  Where the comparator is not consistent (the string of a \<open>constructor\<close> entry compares
  equal to everything, among entries of different counts), the language leaves the order
  to the implementation, and engines differ. There \<open>sortEntries\<close> still returns a permutation
  of the entries; which one the code returns is not modelled, and nothing below is claimed
  of the order in that case.
\<close>

fun insertEntry :: "string \<times> jsval \<Rightarrow> (string \<times> jsval) list \<Rightarrow> (string \<times> jsval) list" where
  "insertEntry x [] = [x]"
| "insertEntry x (y # ys) =
     (if sortCompare x y \<le> 0 then x # y # ys else y # insertEntry x ys)"

fun sortEntries :: "(string \<times> jsval) list \<Rightarrow> (string \<times> jsval) list" where
  "sortEntries [] = []"
| "sortEntries (x # xs) = insertEntry x (sortEntries xs)"

definition slice0 :: "'a list \<Rightarrow> int \<Rightarrow> 'a list" where
  \<comment> \<open>\<open>xs.slice(0, n)\<close>: a negative end counts from the end of the array\<close>
  "slice0 xs n =
     (let len = int (length xs);
          final = (if n < 0 then max (len + n) 0 else min n len)
      in take (nat final) xs)"

definition selectKeywords :: "jsobject \<Rightarrow> int \<Rightarrow> string list" where
  \<comment> \<open>lines 52-56\<close>
  "selectKeywords freq n = slice0 (map fst (sortEntries (entries freq))) n"

definition extractKeywords :: "string \<Rightarrow> int \<Rightarrow> string list" where
  \<comment> \<open>lines 36-57\<close>
  "extractKeywords input n = selectKeywords (countWords (words input)) n"

section \<open>Highlighter\<close>

text \<open>
  Line 67 puts a backslash in front of every character of a keyword that the pattern
  syntax reads as an operator, so that in the pattern of line 68 each alternative is the
  keyword taken letter by letter. \<open>literalOf\<close> reads an alternative back as the pattern
  parser does (\<open>None\<close> where an operator is left bare).
\<close>

definition isSyntaxChar :: "char \<Rightarrow> bool" where
  \<comment> \<open>the characters of the class in line 67: the backslash (92) and thirteen others\<close>
  "isSyntaxChar c = (c \<in> set ''.*+?^${}()|[]'' \<or> code c = 92)"

definition escapeRegExp :: "string \<Rightarrow> string" where
  \<comment> \<open>line 67: each character of the class gets a backslash in front\<close>
  "escapeRegExp k = concat (map (\<lambda>c. if isSyntaxChar c then [char_of (92::nat), c] else [c]) k)"

fun literalOf :: "string \<Rightarrow> string option" where
  "literalOf [] = Some []"
| "literalOf [c] = (if isSyntaxChar c then None else Some [c])"
| "literalOf (c # d # ds) =
     (if code c = 92 then (if isSyntaxChar d then map_option ((#) d) (literalOf ds) else None)
      else if isSyntaxChar c then None
      else map_option ((#) c) (literalOf (d # ds)))"

definition alternatives :: "string list \<Rightarrow> string list" where
  \<comment> \<open>\<open>escaped.join("|")\<close> inside the group: one alternative for each keyword, and for no
      keyword at all the group \<open>()\<close>, whose one alternative is empty\<close>
  "alternatives keywords = (if keywords = [] then [[]] else keywords)"

text \<open>
  The matcher stands between two characters of the text: \<open>prev\<close> is the character
  before the position (\<open>None\<close> at the start) and \<open>rest\<close> is the text from the position on.
\<close>

definition isWord :: "char option \<Rightarrow> bool" where
  "isWord x = (case x of None \<Rightarrow> False | Some c \<Rightarrow> isWordChar c)"

definition nextChar :: "string \<Rightarrow> char option" where
  "nextChar rest = (case rest of [] \<Rightarrow> None | c # _ \<Rightarrow> Some c)"

definition wordBoundary :: "char option \<Rightarrow> string \<Rightarrow> bool" where
  \<comment> \<open>\<open>\b\<close>: a word character on exactly one side\<close>
  "wordBoundary prev rest = (isWord prev \<noteq> isWord (nextChar rest))"

fun matchLiteral :: "string \<Rightarrow> string \<Rightarrow> bool" where
  \<comment> \<open>the keyword, ignoring case, is a prefix of the text at the position\<close>
  "matchLiteral [] rest = True"
| "matchLiteral (k # ks) [] = False"
| "matchLiteral (k # ks) (c # cs) = (canonicalize k = canonicalize c \<and> matchLiteral ks cs)"

definition prevAfter :: "char option \<Rightarrow> string \<Rightarrow> char option" where
  \<comment> \<open>the character before the position once \<open>matched\<close> has been read\<close>
  "prevAfter prev matched = (if matched = [] then prev else Some (last matched))"

fun firstAlternative :: "string list \<Rightarrow> char option \<Rightarrow> string \<Rightarrow> nat option" where
  \<comment> \<open>the alternatives are tried from left to right; one that matches but does not end at
      a word boundary is given up for the next\<close>
  "firstAlternative [] prev rest = None"
| "firstAlternative (k # ks) prev rest =
     (if matchLiteral k rest
         \<and> wordBoundary (prevAfter prev (take (length k) rest)) (drop (length k) rest)
      then Some (length k)
      else firstAlternative ks prev rest)"

definition execAt :: "string list \<Rightarrow> char option \<Rightarrow> string \<Rightarrow> nat option" where
  \<comment> \<open>the pattern \<open>\b(k1|...|kn)\b\<close> tried at one position: the length of the match\<close>
  "execAt alts prev rest =
     (if wordBoundary prev rest then firstAlternative alts prev rest else None)"

lemma matchLiteral_length: "matchLiteral k rest \<Longrightarrow> length k \<le> length rest"
  by (induction k rest rule: matchLiteral.induct) auto

lemma firstAlternative_length:
  "firstAlternative alts prev rest = Some l \<Longrightarrow> l \<le> length rest"
  by (induction alts) (auto split: if_splits dest: matchLiteral_length)

lemma execAt_length: "execAt alts prev rest = Some l \<Longrightarrow> l \<le> length rest"
  by (auto simp: execAt_def split: if_splits dest: firstAlternative_length)

text \<open>
  \<open>input.replace(regex, "**$1**")\<close> with the global flag: the pattern is tried at each
  position from the left. Where it fails the character is kept and the search moves
  one on. A match is replaced by itself between two pairs of stars, and the search goes
  on behind it; behind an empty match it moves one character on, and stops at the end.
\<close>

function replaceAll :: "string list \<Rightarrow> char option \<Rightarrow> string \<Rightarrow> string" where
  "replaceAll alts prev rest =
     (case execAt alts prev rest of
        None \<Rightarrow> (case rest of [] \<Rightarrow> [] | c # cs \<Rightarrow> c # replaceAll alts (Some c) cs)
      | Some l \<Rightarrow>
          if l = 0
          then ''****'' @ (case rest of [] \<Rightarrow> [] | c # cs \<Rightarrow> c # replaceAll alts (Some c) cs)
          else ''**'' @ take l rest @ ''**''
               @ replaceAll alts (Some (last (take l rest))) (drop l rest))"
  by pat_completeness auto
termination
proof (relation "measure (\<lambda>(alts, prev, rest). length rest)")
  show "wf (measure (\<lambda>(alts, prev, rest). length rest))" by simp
next
  fix alts :: "string list" and prev rest l
  assume "execAt alts prev rest = Some l" and "l \<noteq> 0"
  then have "0 < l" and "l \<le> length rest" by (auto dest: execAt_length)
  then show "((alts, Some (last (take l rest)), drop l rest), alts, prev, rest)
               \<in> measure (\<lambda>(alts, prev, rest). length rest)"
    by simp
qed auto

definition highlight :: "string \<Rightarrow> string list \<Rightarrow> string" where
  \<comment> \<open>lines 65-71\<close>
  "highlight input keywords = replaceAll (alternatives keywords) None input"

text \<open>
  \<open>replace\<close> first collects its matches and then builds the result from them and from
  the text between them. \<open>segments\<close> is that collection: the text cut into the matches
  (marked) and the single characters in between. \<open>matches\<close> lists each match by its offset
  in the text and its length.
\<close>

function segments :: "string list \<Rightarrow> char option \<Rightarrow> string \<Rightarrow> (bool \<times> string) list" where
  "segments alts prev rest =
     (case execAt alts prev rest of
        None \<Rightarrow> (case rest of [] \<Rightarrow> [] | c # cs \<Rightarrow> (False, [c]) # segments alts (Some c) cs)
      | Some l \<Rightarrow>
          if l = 0
          then (True, []) # (case rest of [] \<Rightarrow> [] | c # cs \<Rightarrow> (False, [c]) # segments alts (Some c) cs)
          else (True, take l rest)
               # segments alts (Some (last (take l rest))) (drop l rest))"
  by pat_completeness auto
termination
proof (relation "measure (\<lambda>(alts, prev, rest). length rest)")
  show "wf (measure (\<lambda>(alts, prev, rest). length rest))" by simp
next
  fix alts :: "string list" and prev rest l
  assume "execAt alts prev rest = Some l" and "l \<noteq> 0"
  then have "0 < l" and "l \<le> length rest" by (auto dest: execAt_length)
  then show "((alts, Some (last (take l rest)), drop l rest), alts, prev, rest)
               \<in> measure (\<lambda>(alts, prev, rest). length rest)"
    by simp
qed auto

fun markedAt :: "nat \<Rightarrow> (bool \<times> string) list \<Rightarrow> (nat \<times> nat) list" where
  "markedAt i [] = []"
| "markedAt i ((m, s) # segs) = (if m then [(i, length s)] else []) @ markedAt (i + length s) segs"

definition matches :: "string list \<Rightarrow> string \<Rightarrow> (nat \<times> nat) list" where
  "matches keywords input = markedAt 0 (segments (alternatives keywords) None input)"

section \<open>The shell\<close>

record shell =
  "text" :: string
  keywordsCount :: int
  highlighted :: string

definition trim :: "string \<Rightarrow> string" where
  "trim s = rev (dropWhile isWhiteSpace (rev (dropWhile isWhiteSpace s)))"

definition handleSubmit :: "shell \<Rightarrow> shell" where
  \<comment> \<open>lines 76-84; the empty string is the falsy one\<close>
  "handleSubmit s =
     (if trim (text s) = [] then s\<lparr>highlighted := []\<rparr>
      else let kws = extractKeywords (text s) (keywordsCount s)
           in s\<lparr>highlighted := highlight (text s) kws\<rparr>)"

section \<open>Notions of the specification\<close>

text \<open>
  A frequency map in the sense of the specification holds a number for every token;
  \<open>countOf\<close> reads the number of an entry.
\<close>

definition countOf :: "string \<times> jsval \<Rightarrow> nat" where
  "countOf e = (case snd e of Num k \<Rightarrow> k | _ \<Rightarrow> 0)"

definition numeric :: "jsobject \<Rightarrow> bool" where
  "numeric obj = list_all (\<lambda>e. case snd e of Num k \<Rightarrow> True | _ \<Rightarrow> False) obj"

text \<open>
  The distinct elements of a list, each at the place of its first occurrence.
\<close>

fun firstOccurrences :: "'a list \<Rightarrow> 'a list" where
  "firstOccurrences [] = []"
| "firstOccurrences (x # xs) = x # filter (\<lambda>y. y \<noteq> x) (firstOccurrences xs)"

text \<open>
  The result of \<open>replace\<close> as the specification describes it: every marked piece is put
  between two pairs of stars, every other piece is kept.
\<close>

definition render :: "(bool \<times> string) list \<Rightarrow> string" where
  "render segs = concat (map (\<lambda>(m, s). if m then ''**'' @ s @ ''**'' else s) segs)"

text \<open>
  A whole-word, case-insensitive occurrence of a keyword: at offset \<open>j\<close> the text holds, for
  the length \<open>l\<close>, a keyword up to the case of its letters, with a word boundary before
  and behind. \<open>prev\<close> is the character before the text (\<open>None\<close> for a whole text).
\<close>

definition sameIgnoringCase :: "string \<Rightarrow> string \<Rightarrow> bool" where
  "sameIgnoringCase k m = (map canonicalize k = map canonicalize m)"

definition charBefore :: "char option \<Rightarrow> string \<Rightarrow> nat \<Rightarrow> char option" where
  "charBefore prev rest j = (if j = 0 then prev else Some (rest ! (j - 1)))"

definition occurrence :: "string list \<Rightarrow> char option \<Rightarrow> string \<Rightarrow> nat \<Rightarrow> nat \<Rightarrow> bool" where
  "occurrence keywords prev rest j l =
     (j + l \<le> length rest
      \<and> (\<exists>k\<in>set keywords. sameIgnoringCase k (take l (drop j rest)))
      \<and> wordBoundary (charBefore prev rest j) (drop j rest)
      \<and> wordBoundary (charBefore prev rest (j + l)) (drop (j + l) rest))"

definition wordKeywords :: "string list \<Rightarrow> bool" where
  "wordKeywords keywords = (\<forall>k\<in>set keywords. k \<noteq> [] \<and> (\<forall>c\<in>set k. isWordChar c))"

section \<open>Auxiliary facts\<close>

lemma trim_empty_iff: "trim s = [] \<longleftrightarrow> (\<forall>c\<in>set s. isWhiteSpace c)"
proof
  assume "trim s = []"
  then have e: "dropWhile isWhiteSpace (rev (dropWhile isWhiteSpace s)) = []"
    by (simp add: trim_def)
  show "\<forall>c\<in>set s. isWhiteSpace c"
  proof (cases "dropWhile isWhiteSpace s")
    case Nil
    then show ?thesis by simp
  next
    case (Cons d ds)
    then have "\<not> isWhiteSpace d" using hd_dropWhile[of isWhiteSpace s] by auto
    moreover from e Cons have "isWhiteSpace d" by auto
    ultimately show ?thesis by simp
  qed
next
  assume "\<forall>c\<in>set s. isWhiteSpace c"
  then have d: "dropWhile isWhiteSpace s = []" by simp
  show "trim s = []" unfolding trim_def d by simp
qed

lemma whiteSpace_not_word: "isWhiteSpace c \<Longrightarrow> \<not> isWordChar c"
  by (auto simp: isWhiteSpace_def isWordChar_def isAlnum_def isLower_def isUpper_def isDigit_def)

lemma alnum_is_word: "isAlnum c \<Longrightarrow> isWordChar c"
  by (simp add: isWordChar_def)

lemma split_no_alnum: "\<forall>c\<in>set s. \<not> isAlnum c \<Longrightarrow> set (split s) \<subseteq> {[]}"
  by (induction s rule: split.induct) (auto split: list.splits)

lemma words_no_alnum: "\<forall>c\<in>set s. \<not> isAlnum (toLowerCaseChar c) \<Longrightarrow> words s = []"
  using split_no_alnum[of "toLowerCase s"]
  by (auto simp: words_def toLowerCase_def filter_empty_conv)

lemma replaceAll_no_word:
  "\<forall>c\<in>set rest. \<not> isWordChar c \<Longrightarrow> \<not> isWord prev \<Longrightarrow> replaceAll alts prev rest = rest"
proof (induction rest arbitrary: prev)
  case Nil
  then show ?case by (simp add: execAt_def wordBoundary_def nextChar_def isWord_def)
next
  case (Cons c cs)
  then have "execAt alts prev (c # cs) = None"
    by (simp add: execAt_def wordBoundary_def nextChar_def isWord_def)
  moreover have "replaceAll alts (Some c) cs = cs"
    using Cons by (simp add: isWord_def)
  ultimately show ?case by simp
qed

lemma slice0_Nil: "slice0 [] n = []"
  by (simp add: slice0_def)

lemma insertEntry_mset: "mset (insertEntry x ys) = add_mset x (mset ys)"
  by (induction ys) auto

lemma sortEntries_mset: "mset (sortEntries xs) = mset xs"
  by (induction xs) (auto simp: insertEntry_mset)

lemma entries_mset: "mset (entries obj) = mset obj"
  by (simp add: entries_def)

lemma sorted_keys_mset: "mset (map fst (sortEntries (entries obj))) = mset (map fst obj)"
  by (metis entries_mset mset_map sortEntries_mset)

lemma sorted_keys_length: "length (map fst (sortEntries (entries obj))) = length obj"
  by (metis length_map mset_eq_length entries_mset sortEntries_mset)

lemma sortCompare_numeric:
  "numeric [x, y] \<Longrightarrow> (sortCompare x y \<le> 0) = (countOf y \<le> countOf x)"
  by (auto simp: numeric_def sortCompare_def compareFn_def countOf_def split: jsval.splits)

lemma insertEntry_set: "set (insertEntry x ys) = insert x (set ys)"
  by (metis insertEntry_mset set_mset_mset set_mset_add_mset_insert)

lemma insertEntry_sorted:
  "numeric (x # ys) \<Longrightarrow> sorted_wrt (\<lambda>a b. countOf b \<le> countOf a) ys
   \<Longrightarrow> sorted_wrt (\<lambda>a b. countOf b \<le> countOf a) (insertEntry x ys)"
proof (induction ys)
  case Nil
  then show ?case by simp
next
  case (Cons y ys)
  have c: "(sortCompare x y \<le> 0) = (countOf y \<le> countOf x)"
    using Cons.prems(1) by (intro sortCompare_numeric) (simp add: numeric_def)
  have n: "numeric (x # ys)" using Cons.prems(1) by (simp add: numeric_def)
  show ?case
  proof (cases "sortCompare x y \<le> 0")
    case True
    with c Cons.prems(2) show ?thesis by (auto intro: order_trans)
  next
    case False
    with c Cons.prems(2) Cons.IH[OF n] show ?thesis by (auto simp: insertEntry_set)
  qed
qed

lemma numeric_mset: "mset xs = mset ys \<Longrightarrow> numeric xs = numeric ys"
  by (auto simp: numeric_def list_all_iff dest: mset_eq_setD)

lemma sortEntries_sorted:
  "numeric xs \<Longrightarrow> sorted_wrt (\<lambda>a b. countOf b \<le> countOf a) (sortEntries xs)"
proof (induction xs)
  case Nil
  then show ?case by simp
next
  case (Cons x xs)
  then have "numeric (x # sortEntries xs)"
    using numeric_mset[of "x # sortEntries xs" "x # xs"] by (simp add: sortEntries_mset)
  moreover have "numeric xs" using Cons.prems by (simp add: numeric_def)
  ultimately show ?case using Cons.IH by (simp add: insertEntry_sorted)
qed

lemma slice0_cases:
  "slice0 xs n = (if n < 0 then take (length xs - nat (- n)) xs else take (nat n) xs)"
proof -
  have a: "n < 0 \<Longrightarrow> nat (max (int (length xs) + n) 0) = length xs - nat (- n)" by arith
  have b: "\<not> n < 0 \<Longrightarrow> take (nat (min n (int (length xs)))) xs = take (nat n) xs"
    by (simp add: min_def)
  show ?thesis using a b by (simp add: slice0_def Let_def)
qed

lemma code_less_256: "code c < 256"
  by (simp add: code_def)

lemma toLowerCaseChar_not_upper: "\<not> isUpper (toLowerCaseChar c)"
  using code_less_256[of c]
  by (auto simp: toLowerCaseChar_def isUpper_def code_def)

lemma split_chars: "p \<in> set (split s) \<Longrightarrow> c \<in> set p \<Longrightarrow> isAlnum c \<and> c \<in> set s"
proof (induction s arbitrary: p)
  case Nil
  then show ?case by simp
next
  case (Cons a s)
  show ?case
  proof (cases "isAlnum a")
    case True
    show ?thesis
    proof (cases "split s")
      case Nil
      with True Cons.prems show ?thesis by simp
    next
      case sp: (Cons q qs)
      with True Cons.prems have "p = a # q \<or> p \<in> set qs" by simp
      then show ?thesis
      proof
        assume "p = a # q"
        with Cons.prems(2) have "c = a \<or> c \<in> set q" by simp
        moreover have "q \<in> set (split s)" using sp by simp
        ultimately show ?thesis using True Cons.IH[of q] by auto
      next
        assume "p \<in> set qs"
        then have "p \<in> set (split s)" using sp by simp
        then show ?thesis using Cons.IH[of p] Cons.prems(2) by simp
      qed
    qed
  next
    case False
    show ?thesis
    proof (cases s)
      case Nil
      with False Cons.prems show ?thesis by auto
    next
      case tl: (Cons d ds)
      with False Cons.prems have "p = [] \<or> p \<in> set (split s)"
        by (simp split: if_splits)
      with Cons.prems(2) have "p \<in> set (split s)" by auto
      then show ?thesis using Cons.IH[of p] Cons.prems(2) by simp
    qed
  qed
qed

lemma words_chars:
  assumes "w \<in> set (words input)"
  shows "w \<noteq> [] \<and> (\<forall>c\<in>set w. isLower c \<or> isDigit c)"
proof -
  from assms have p: "w \<in> set (split (toLowerCase input))" and ne: "w \<noteq> []"
    by (auto simp: words_def)
  have "isLower c \<or> isDigit c" if "c \<in> set w" for c
  proof -
    from split_chars[OF p that] have a: "isAlnum c" and "c \<in> set (toLowerCase input)" by auto
    then obtain d where "c = toLowerCaseChar d" by (auto simp: toLowerCase_def)
    then have "\<not> isUpper c" by (simp add: toLowerCaseChar_not_upper)
    with a show ?thesis by (simp add: isAlnum_def)
  qed
  with ne show ?thesis by blast
qed

lemma setProp_keys:
  "map fst (setProp obj w v) = (if w \<in> fst ` set obj then map fst obj else map fst obj @ [w])"
  by (induction obj w v rule: setProp.induct) auto

lemma countWord_keys:
  "map fst (countWord obj w)
   = (if has stopWords w \<or> w \<in> fst ` set obj then map fst obj else map fst obj @ [w])"
  by (simp add: countWord_def setProp_keys)

lemma foldl_countWord_distinct:
  "distinct (map fst obj) \<Longrightarrow> distinct (map fst (foldl countWord obj ws))"
proof (induction ws arbitrary: obj)
  case Nil
  then show ?case by simp
next
  case (Cons w ws)
  have "distinct (map fst (countWord obj w))"
    using Cons.prems by (auto simp: countWord_keys)
  then show ?case using Cons.IH by simp
qed

lemma foldl_countWord_set:
  "fst ` set (foldl countWord obj ws)
   = fst ` set obj \<union> {w \<in> set ws. \<not> has stopWords w}"
proof (induction ws arbitrary: obj)
  case Nil
  then show ?case by simp
next
  case (Cons w ws)
  have "fst ` set (countWord obj w)
        = fst ` set obj \<union> (if has stopWords w then {} else {w})"
    using arg_cong[OF countWord_keys[of obj w], of set] by (auto split: if_splits)
  then show ?case using Cons.IH[of "countWord obj w"] by auto
qed

lemma countWords_distinct: "distinct (map fst (countWords ws))"
  by (simp add: countWords_def foldl_countWord_distinct)

lemma countWords_set: "fst ` set (countWords ws) = {w \<in> set ws. \<not> has stopWords w}"
  by (simp add: countWords_def foldl_countWord_set)

lemma countWords_length: "length (countWords ws) = card {w \<in> set ws. \<not> has stopWords w}"
proof -
  have "card (set (map fst (countWords ws))) = length (map fst (countWords ws))"
    by (rule distinct_card[OF countWords_distinct])
  then show ?thesis by (simp add: countWords_set)
qed

lemma foldl_countWord_keys:
  "map fst (foldl countWord obj ws)
   = map fst obj
     @ filter (\<lambda>w. w \<notin> fst ` set obj)
         (firstOccurrences (filter (\<lambda>w. \<not> has stopWords w) ws))"
proof (induction ws arbitrary: obj)
  case Nil
  then show ?case by simp
next
  case (Cons w ws)
  let ?F = "firstOccurrences (filter (\<lambda>w. \<not> has stopWords w) ws)"
  show ?case
  proof (cases "has stopWords w \<or> w \<in> fst ` set obj")
    case True
    then have k: "map fst (countWord obj w) = map fst obj" by (simp add: countWord_keys)
    then have s: "fst ` set (countWord obj w) = fst ` set obj"
      by (metis list.set_map)
    have "filter (\<lambda>y. y \<noteq> w \<and> y \<notin> fst ` set obj) ?F = filter (\<lambda>y. y \<notin> fst ` set obj) ?F"
      if "w \<in> fst ` set obj"
      using that by (intro filter_cong) auto
    with True show ?thesis using Cons.IH[of "countWord obj w"] by (auto simp: k s)
  next
    case False
    then have k: "map fst (countWord obj w) = map fst obj @ [w]" by (simp add: countWord_keys)
    then have s: "fst ` set (countWord obj w) = insert w (fst ` set obj)"
      by (metis list.set_map set_append list.simps(15) Un_insert_right sup_bot.right_neutral empty_set)
    with False show ?thesis using Cons.IH[of "countWord obj w"] by (simp add: k s)
  qed
qed

lemma countWords_keys:
  "map fst (countWords ws) = firstOccurrences (filter (\<lambda>w. \<not> has stopWords w) ws)"
  by (simp add: countWords_def foldl_countWord_keys)

lemma sortCompare_positive: "0 < sortCompare x y \<Longrightarrow> snd x \<noteq> snd y"
  by (auto simp: sortCompare_def compareFn_def split: option.splits)

text \<open>
  On a map of numbers the sort keeps the entries of one count in the order in which
  \<open>Object.entries\<close> lists them, and where the comparator yields 0 throughout it keeps the
  whole array as it is.
\<close>

lemma insertEntry_stable:
  "numeric (x # ys) \<Longrightarrow>
   filter (\<lambda>e. snd e = v) (insertEntry x ys) = filter (\<lambda>e. snd e = v) (x # ys)"
proof (induction ys)
  case Nil
  then show ?case by simp
next
  case (Cons y ys)
  from Cons.prems have n: "numeric (x # ys)" by (simp add: numeric_def)
  show ?case
  proof (cases "sortCompare x y \<le> 0")
    case True
    then show ?thesis by simp
  next
    case False
    then have "snd x \<noteq> snd y" by (intro sortCompare_positive) simp
    with False Cons.IH[OF n] show ?thesis by auto
  qed
qed

lemma sortEntries_stable:
  "numeric xs \<Longrightarrow>
   filter (\<lambda>e. snd e = v) (sortEntries xs) = filter (\<lambda>e. snd e = v) xs"
proof (induction xs)
  case Nil
  then show ?case by simp
next
  case (Cons x xs)
  from Cons.prems have n: "numeric xs" by (simp add: numeric_def)
  have "mset (x # sortEntries xs) = mset (x # xs)" by (simp add: sortEntries_mset)
  from numeric_mset[OF this] Cons.prems have "numeric (x # sortEntries xs)" by simp
  then show ?case using Cons.IH[OF n] by (simp add: insertEntry_stable)
qed

lemma sortEntries_all_equal:
  "\<forall>x\<in>set es. \<forall>y\<in>set es. sortCompare x y = 0 \<Longrightarrow> sortEntries es = es"
proof (induction es)
  case Nil
  then show ?case by simp
next
  case (Cons x es)
  then have "sortEntries es = es" by simp
  moreover have "insertEntry x es = x # es"
    using Cons.prems by (cases es) simp_all
  ultimately show ?case by simp
qed

subsection \<open>The matches of the highlighter\<close>

declare segments.simps [simp del] replaceAll.simps [simp del]

lemma matchLiteral_iff:
  "matchLiteral k r \<longleftrightarrow> length k \<le> length r \<and> sameIgnoringCase k (take (length k) r)"
  by (induction k r rule: matchLiteral.induct) (auto simp: sameIgnoringCase_def)

lemma replaceAll_render: "replaceAll alts prev rest = render (segments alts prev rest)"
proof (induction alts prev rest rule: segments.induct)
  case (1 alts prev rest)
  show ?case
  proof (cases "execAt alts prev rest")
    case None
    then show ?thesis
      using "1.IH"(1) by (subst replaceAll.simps, subst segments.simps)
        (auto simp: render_def split: list.splits)
  next
    case (Some l)
    then show ?thesis
      using "1.IH"(2,3) by (subst replaceAll.simps, subst segments.simps)
        (auto simp: render_def split: list.splits)
  qed
qed

lemma segments_concat: "concat (map snd (segments alts prev rest)) = rest"
proof (induction alts prev rest rule: segments.induct)
  case (1 alts prev rest)
  show ?case
  proof (cases "execAt alts prev rest")
    case None
    then show ?thesis
      using "1.IH"(1) by (subst segments.simps) (auto split: list.splits)
  next
    case (Some l)
    then show ?thesis
      using "1.IH"(2,3) by (subst segments.simps) (auto split: list.splits)
  qed
qed

lemma canon_of_word:
  "isWordChar c \<Longrightarrow>
   (48 \<le> canonicalize c \<and> canonicalize c \<le> 57) \<or> (65 \<le> canonicalize c \<and> canonicalize c \<le> 90)
   \<or> canonicalize c = 95"
  unfolding canonicalize_def isWordChar_def isAlnum_def isLower_def isUpper_def isDigit_def
  by (cases "97 \<le> code c \<and> code c \<le> 122") auto

lemma word_of_canon:
  assumes "(48 \<le> canonicalize d \<and> canonicalize d \<le> 57) \<or> (65 \<le> canonicalize d \<and> canonicalize d \<le> 90)
   \<or> canonicalize d = 95"
  shows "isWordChar d"
proof (cases "isLower d")
  case True
  then show ?thesis by (simp add: isWordChar_def isAlnum_def)
next
  case False
  have n: "code d < 256" by (rule code_less_256)
  show ?thesis
  proof (cases "224 \<le> code d")
    case True
    with False assms n have False
      unfolding canonicalize_def by (simp split: if_splits; arith)
    then show ?thesis ..
  next
    case f: False
    with False assms have "canonicalize d = code d \<or> canonicalize d = 924"
      unfolding canonicalize_def by (simp split: if_splits)
    with assms have "(48 \<le> code d \<and> code d \<le> 57) \<or> (65 \<le> code d \<and> code d \<le> 90) \<or> code d = 95"
      by auto
    then show ?thesis
      unfolding isWordChar_def isAlnum_def isUpper_def isDigit_def by blast
  qed
qed

lemma canonicalize_word:
  "canonicalize c = canonicalize d \<Longrightarrow> isWordChar c \<Longrightarrow> isWordChar d"
  using canon_of_word[of c] word_of_canon[of d] by simp

lemma charBefore_Cons: "charBefore prev (c # cs) (Suc j) = charBefore (Some c) cs j"
  by (cases j) (simp_all add: charBefore_def)

lemma occurrence_Cons:
  "occurrence alts prev (c # cs) (Suc j) l = occurrence alts (Some c) cs j l"
  using charBefore_Cons[of prev c cs j] charBefore_Cons[of prev c cs "j + l"]
  by (simp add: occurrence_def)

lemma last_take:
  assumes "0 < n" and "n \<le> length xs"
  shows "last (take n xs) = xs ! (n - 1)"
proof -
  from assms have "take n xs \<noteq> []" by auto
  then have "last (take n xs) = take n xs ! (length (take n xs) - 1)" by (rule last_conv_nth)
  also from assms have "length (take n xs) = n" by simp
  also from assms have "take n xs ! (n - 1) = xs ! (n - 1)" by simp
  finally show ?thesis .
qed

lemma charBefore_drop:
  "0 < n \<Longrightarrow> n \<le> length rest \<Longrightarrow> n + j \<le> length rest
   \<Longrightarrow> charBefore (Some (last (take n rest))) (drop n rest) j = charBefore prev rest (n + j)"
  by (cases j) (simp_all add: charBefore_def last_take)

lemma occurrence_drop:
  assumes "0 < n" and "n \<le> length rest"
  shows "occurrence alts (Some (last (take n rest))) (drop n rest) j l
         = occurrence alts prev rest (n + j) l"
proof (cases "n + j + l \<le> length rest")
  case True
  then have a: "charBefore (Some (last (take n rest))) (drop n rest) j = charBefore prev rest (n + j)"
    and b: "charBefore (Some (last (take n rest))) (drop n rest) (j + l)
            = charBefore prev rest (n + (j + l))"
    using assms by (simp_all add: charBefore_drop)
  have c: "drop j (drop n rest) = drop (n + j) rest"
    and d: "drop (j + l) (drop n rest) = drop (n + j + l) rest"
    by (simp_all add: add.commute add.left_commute)
  have e: "j + l \<le> length (drop n rest)" using True by simp
  show ?thesis unfolding occurrence_def a b c d using True e by (simp only: add.assoc simp_thms)
next
  case False
  with assms have "\<not> j + l \<le> length (drop n rest)" and "\<not> n + j + l \<le> length rest"
    by simp_all
  then show ?thesis by (simp add: occurrence_def)
qed

lemma prevAfter_charBefore:
  "l \<le> length rest \<Longrightarrow> prevAfter prev (take l rest) = charBefore prev rest l"
  by (cases "l = 0") (auto simp: prevAfter_def charBefore_def last_take)

lemma firstAlternative_Some:
  "firstAlternative alts prev rest = Some l \<Longrightarrow>
   \<exists>k\<in>set alts. length k = l \<and> matchLiteral k rest
      \<and> wordBoundary (prevAfter prev (take l rest)) (drop l rest)"
  by (induction alts) (auto split: if_splits)

lemma firstAlternative_None:
  "firstAlternative alts prev rest = None \<Longrightarrow> k \<in> set alts \<Longrightarrow> matchLiteral k rest
   \<Longrightarrow> \<not> wordBoundary (prevAfter prev (take (length k) rest)) (drop (length k) rest)"
  by (induction alts) (auto split: if_splits)

lemma sameIgnoringCase_length: "sameIgnoringCase k m \<Longrightarrow> length k = length m"
  unfolding sameIgnoringCase_def by (rule map_eq_imp_length_eq)

lemma occurrence_0:
  "occurrence alts prev rest 0 l \<longleftrightarrow>
   wordBoundary prev rest
   \<and> (\<exists>k\<in>set alts. length k = l \<and> matchLiteral k rest
        \<and> wordBoundary (prevAfter prev (take l rest)) (drop l rest))"
proof
  assume o: "occurrence alts prev rest 0 l"
  then have le: "l \<le> length rest" and b: "wordBoundary prev rest"
    and a: "wordBoundary (charBefore prev rest l) (drop l rest)"
    by (simp_all add: occurrence_def charBefore_def)
  from o obtain k where k: "k \<in> set alts" "sameIgnoringCase k (take l rest)"
    by (auto simp: occurrence_def)
  with le have "length k = l" by (auto dest: sameIgnoringCase_length)
  with k le have "matchLiteral k rest" by (simp add: matchLiteral_iff)
  with k \<open>length k = l\<close> a b le
  show "wordBoundary prev rest
   \<and> (\<exists>k\<in>set alts. length k = l \<and> matchLiteral k rest
        \<and> wordBoundary (prevAfter prev (take l rest)) (drop l rest))"
    by (auto simp: prevAfter_charBefore)
next
  assume r: "wordBoundary prev rest
   \<and> (\<exists>k\<in>set alts. length k = l \<and> matchLiteral k rest
        \<and> wordBoundary (prevAfter prev (take l rest)) (drop l rest))"
  then obtain k where k: "k \<in> set alts" "length k = l" "matchLiteral k rest"
    "wordBoundary (prevAfter prev (take l rest)) (drop l rest)" by blast
  then have le: "l \<le> length rest" and s: "sameIgnoringCase k (take l rest)"
    by (auto simp: matchLiteral_iff)
  with k r show "occurrence alts prev rest 0 l"
    by (auto simp: occurrence_def prevAfter_charBefore charBefore_def)
qed

lemma execAt_occurrence: "execAt alts prev rest = Some l \<Longrightarrow> occurrence alts prev rest 0 l"
  by (auto simp: execAt_def occurrence_0 split: if_splits dest: firstAlternative_Some)

lemma occurrence_execAt:
  assumes "occurrence alts prev rest 0 l"
  shows "execAt alts prev rest \<noteq> None"
proof -
  from assms obtain k where b: "wordBoundary prev rest" and k: "k \<in> set alts" "length k = l"
    "matchLiteral k rest" "wordBoundary (prevAfter prev (take l rest)) (drop l rest)"
    unfolding occurrence_0 by blast
  have "firstAlternative alts prev rest \<noteq> None"
    using firstAlternative_None[of alts prev rest k] k by auto
  with b show ?thesis by (simp add: execAt_def)
qed

lemma segments_None:
  "execAt alts prev rest = None \<Longrightarrow>
   segments alts prev rest
   = (case rest of [] \<Rightarrow> [] | c # cs \<Rightarrow> (False, [c]) # segments alts (Some c) cs)"
  by (subst segments.simps) simp

lemma segments_empty:
  "execAt alts prev rest = Some 0 \<Longrightarrow>
   segments alts prev rest
   = (True, []) # (case rest of [] \<Rightarrow> [] | c # cs \<Rightarrow> (False, [c]) # segments alts (Some c) cs)"
  by (subst segments.simps) simp

lemma segments_match:
  "execAt alts prev rest = Some l \<Longrightarrow> l \<noteq> 0 \<Longrightarrow>
   segments alts prev rest
   = (True, take l rest) # segments alts (Some (last (take l rest))) (drop l rest)"
  by (subst segments.simps) simp

lemma segments_sound:
  "(j, l) \<in> set (markedAt i (segments alts prev rest))
   \<Longrightarrow> i \<le> j \<and> occurrence alts prev rest (j - i) l"
proof (induction alts prev rest arbitrary: i rule: segments.induct)
  case (1 alts prev rest)
  note mem = "1.prems"
  have step: "i \<le> j \<and> occurrence alts prev rest (j - i) l"
    if r: "rest = c # cs"
      and ih: "\<And>i. (j, l) \<in> set (markedAt i (segments alts (Some c) cs))
                 \<Longrightarrow> i \<le> j \<and> occurrence alts (Some c) cs (j - i) l"
      and m: "(j, l) \<in> set (markedAt (Suc i) (segments alts (Some c) cs))"
    for c cs
  proof -
    from ih[OF m] have le: "Suc i \<le> j" and o: "occurrence alts (Some c) cs (j - Suc i) l"
      by auto
    from le have "j - i = Suc (j - Suc i)" by simp
    with o r le show ?thesis by (simp add: occurrence_Cons)
  qed
  show ?case
  proof (cases "execAt alts prev rest")
    case None
    show ?thesis
    proof (cases rest)
      case Nil
      with mem[unfolded segments_None[OF None]] show ?thesis by simp
    next
      case (Cons c cs)
      with mem[unfolded segments_None[OF None]]
      have m: "(j, l) \<in> set (markedAt (Suc i) (segments alts (Some c) cs))"
        by simp
      have ih: "\<And>i. (j, l) \<in> set (markedAt i (segments alts (Some c) cs))
                 \<Longrightarrow> i \<le> j \<and> occurrence alts (Some c) cs (j - i) l"
        by (rule "1.IH"(1)[OF None Cons])
      show ?thesis by (rule step[OF Cons ih m])
    qed
  next
    case (Some n)
    note occ0 = execAt_occurrence[OF Some]
    show ?thesis
    proof (cases "n = 0")
      case True
      with Some have e: "execAt alts prev rest = Some 0" by simp
      show ?thesis
      proof (cases rest)
        case Nil
        with mem[unfolded segments_empty[OF e]] have "j = i \<and> l = 0" by simp
        with occ0 True show ?thesis by simp
      next
        case (Cons c cs)
        with mem[unfolded segments_empty[OF e]]
        have "(j = i \<and> l = 0) \<or> (j, l) \<in> set (markedAt (Suc i) (segments alts (Some c) cs))"
          by simp
        then show ?thesis
        proof
          assume "j = i \<and> l = 0"
          with occ0 True show ?thesis by simp
        next
          assume m: "(j, l) \<in> set (markedAt (Suc i) (segments alts (Some c) cs))"
          have ih: "\<And>i. (j, l) \<in> set (markedAt i (segments alts (Some c) cs))
                 \<Longrightarrow> i \<le> j \<and> occurrence alts (Some c) cs (j - i) l"
            by (rule "1.IH"(2)[OF Some True Cons])
          show ?thesis by (rule step[OF Cons ih m])
        qed
      qed
    next
      case False
      from Some have le: "n \<le> length rest" by (rule execAt_length)
      from mem[unfolded segments_match[OF Some False]] le
      have "(j = i \<and> l = n)
            \<or> (j, l) \<in> set (markedAt (i + n)
                  (segments alts (Some (last (take n rest))) (drop n rest)))"
        by simp
      then show ?thesis
      proof
        assume "j = i \<and> l = n"
        with occ0 show ?thesis by simp
      next
        assume "(j, l) \<in> set (markedAt (i + n)
                  (segments alts (Some (last (take n rest))) (drop n rest)))"
        from "1.IH"(3)[OF Some False this]
        have a: "i + n \<le> j"
          and o: "occurrence alts (Some (last (take n rest))) (drop n rest) (j - (i + n)) l"
          by auto
        from a have "j - i = n + (j - (i + n))" by simp
        moreover from False have "0 < n" by simp
        from occurrence_drop[OF this le, of alts "j - (i + n)" l prev] o
        have "occurrence alts prev rest (n + (j - (i + n))) l" by simp
        ultimately show ?thesis using a by simp
      qed
    qed
  qed
qed

lemma sameIgnoringCase_word:
  "sameIgnoringCase k m \<Longrightarrow> \<forall>c\<in>set k. isWordChar c \<Longrightarrow> \<forall>c\<in>set m. isWordChar c"
proof (induction k arbitrary: m)
  case Nil
  then show ?case by (simp add: sameIgnoringCase_def)
next
  case (Cons a k)
  then obtain b m' where m: "m = b # m'" and c: "canonicalize a = canonicalize b"
    and s: "sameIgnoringCase k m'"
    by (cases m) (auto simp: sameIgnoringCase_def)
  from Cons.prems(2) c have "isWordChar b" by (auto intro: canonicalize_word)
  moreover from Cons.IH[OF s] Cons.prems(2) have "\<forall>c\<in>set m'. isWordChar c" by simp
  ultimately show ?case using m by simp
qed

lemma occurrence_word:
  assumes "wordKeywords alts" and "occurrence alts prev rest j l"
  shows "0 < l" and "\<forall>n < l. isWordChar (rest ! (j + n))"
proof -
  from assms(2) obtain k where k: "k \<in> set alts" "sameIgnoringCase k (take l (drop j rest))"
    and le: "j + l \<le> length rest"
    by (auto simp: occurrence_def)
  from k assms(1) have ne: "k \<noteq> []" and w: "\<forall>c\<in>set k. isWordChar c"
    by (auto simp: wordKeywords_def)
  from k(2) le have "length k = l" by (auto dest: sameIgnoringCase_length)
  with ne show "0 < l" by auto
  from sameIgnoringCase_word[OF k(2) w] have a: "\<forall>c\<in>set (take l (drop j rest)). isWordChar c" .
  show "\<forall>n < l. isWordChar (rest ! (j + n))"
  proof (intro allI impI)
    fix n assume n: "n < l"
    with le have "take l (drop j rest) ! n = rest ! (j + n)" by simp
    moreover from n le have "take l (drop j rest) ! n \<in> set (take l (drop j rest))"
      by (intro nth_mem) simp
    ultimately show "isWordChar (rest ! (j + n))" using a by auto
  qed
qed

lemma wordBoundary_inside:
  assumes "0 < j" and "j < length rest"
    and "isWordChar (rest ! (j - 1))" and "isWordChar (rest ! j)"
  shows "\<not> wordBoundary (charBefore prev rest j) (drop j rest)"
proof -
  from assms(2) have "drop j rest = rest ! j # drop (Suc j) rest"
    by (simp add: Cons_nth_drop_Suc)
  with assms show ?thesis
    by (simp add: wordBoundary_def charBefore_def isWord_def nextChar_def)
qed

lemma occurrence_end:
  assumes "wordKeywords alts" and "occurrence alts prev rest j l" and "j + l < length rest"
  shows "\<not> isWordChar (rest ! (j + l))"
proof
  assume w: "isWordChar (rest ! (j + l))"
  from occurrence_word[OF assms(1,2)]
  have "0 < l" and all: "\<forall>n < l. isWordChar (rest ! (j + n))" by auto
  from \<open>0 < l\<close> have "l - 1 < l" and "j + (l - 1) = j + l - 1" by simp_all
  with all have "isWordChar (rest ! (j + l - 1))" by metis
  with w assms(3) \<open>0 < l\<close>
  have "\<not> wordBoundary (charBefore prev rest (j + l)) (drop (j + l) rest)"
    by (intro wordBoundary_inside) auto
  with assms(2) show False by (simp add: occurrence_def)
qed

lemma occurrence_same_start:
  assumes "wordKeywords alts" and "occurrence alts prev rest j l" and "occurrence alts prev rest j l'"
  shows "l = l'"
proof -
  have aux: False
    if a: "occurrence alts prev rest j m" and b: "occurrence alts prev rest j m'" and lt: "m < m'"
    for m m'
  proof -
    from b have "j + m' \<le> length rest" by (simp add: occurrence_def)
    with lt have "j + m < length rest" by simp
    from occurrence_end[OF assms(1) a this] have "\<not> isWordChar (rest ! (j + m))" .
    moreover from occurrence_word(2)[OF assms(1) b] lt have "isWordChar (rest ! (j + m))" by simp
    ultimately show False by simp
  qed
  show ?thesis
    using aux[OF assms(2,3)] aux[OF assms(3,2)] by (cases l l' rule: linorder_cases) auto
qed

lemma occurrence_not_inside:
  assumes "wordKeywords alts" and "occurrence alts prev rest 0 n" and "0 < j" and "j < n"
  shows "\<not> occurrence alts prev rest j l"
proof
  assume o: "occurrence alts prev rest j l"
  from assms(2) have le: "n \<le> length rest" by (simp add: occurrence_def)
  from occurrence_word(2)[OF assms(1,2)] assms(3,4)
  have "isWordChar (rest ! (j - 1))" and "isWordChar (rest ! j)" by simp_all
  with assms(3,4) le have "\<not> wordBoundary (charBefore prev rest j) (drop j rest)"
    by (intro wordBoundary_inside) auto
  with o show False by (simp add: occurrence_def)
qed

lemma segments_complete:
  "wordKeywords alts \<Longrightarrow> occurrence alts prev rest j l
   \<Longrightarrow> (i + j, l) \<in> set (markedAt i (segments alts prev rest))"
proof (induction alts prev rest arbitrary: i j rule: segments.induct)
  case (1 alts prev rest)
  note wk = "1.prems"(1) and occ = "1.prems"(2)
  show ?case
  proof (cases "execAt alts prev rest")
    case None
    have "j \<noteq> 0"
    proof
      assume "j = 0"
      with occ have "occurrence alts prev rest 0 l" by simp
      from occurrence_execAt[OF this] None show False by simp
    qed
    then obtain j' where j: "j = Suc j'" by (cases j) auto
    with occ have "rest \<noteq> []" by (auto simp: occurrence_def)
    then obtain c cs where r: "rest = c # cs" by (cases rest) auto
    from occ j r have "occurrence alts (Some c) cs j' l" by (simp add: occurrence_Cons)
    from "1.IH"(1)[OF None r wk this, of "Suc i"]
    have "(i + j, l) \<in> set (markedAt (Suc i) (segments alts (Some c) cs))" using j by simp
    then show ?thesis unfolding segments_None[OF None] using r by simp
  next
    case (Some n)
    note occ0 = execAt_occurrence[OF Some]
    from occurrence_word(1)[OF wk occ0] have n: "n \<noteq> 0" by simp
    from Some have le: "n \<le> length rest" by (rule execAt_length)
    consider "j = 0" | "0 < j" "j < n" | "n \<le> j" by linarith
    then show ?thesis
    proof cases
      case 1
      with occ occ0 have "l = n" using occurrence_same_start[OF wk] by blast
      with 1 le show ?thesis unfolding segments_match[OF Some n] by simp
    next
      case 2
      with occurrence_not_inside[OF wk occ0] occ show ?thesis by blast
    next
      case 3
      from n have "0 < n" by simp
      from occurrence_drop[OF this le, of alts "j - n" l prev] occ 3
      have "occurrence alts (Some (last (take n rest))) (drop n rest) (j - n) l" by simp
      from "1.IH"(3)[OF Some n wk this, of "i + n"] 3
      have "(i + j, l)
            \<in> set (markedAt (i + n) (segments alts (Some (last (take n rest))) (drop n rest)))"
        by simp
      then show ?thesis unfolding segments_match[OF Some n] using le by simp
    qed
  qed
qed

subsection \<open>The pattern takes each keyword letter by letter\<close>

lemma literalOf_escapeRegExp: "literalOf (escapeRegExp k) = Some k"
proof (induction k)
  case Nil
  then show ?case by (simp add: escapeRegExp_def)
next
  case (Cons c k)
  have e: "escapeRegExp (c # k)
           = (if isSyntaxChar c then [char_of (92::nat), c] else [c]) @ escapeRegExp k"
    by (simp add: escapeRegExp_def)
  have b: "code (char_of (92::nat)) = 92" by (simp add: code_def)
  show ?case
  proof (cases "isSyntaxChar c")
    case True
    with e b Cons.IH show ?thesis by simp
  next
    case False
    then have n: "code c \<noteq> 92" by (auto simp: isSyntaxChar_def)
    show ?thesis
    proof (cases "escapeRegExp k")
      case Nil
      with e False Cons.IH show ?thesis by simp
    next
      case (Cons d ds)
      with e False n Cons.IH show ?thesis by simp
    qed
  qed
qed

subsection \<open>Tokens other than \<open>constructor\<close>\<close>

text \<open>
  The keywords of a text are word keywords. A token other than \<open>constructor\<close> is counted
  as the specification says, and in a text without that token the keywords come by
  descending frequency.
\<close>

lemma extractKeywords_subset:
  "set (extractKeywords input n) \<subseteq> {w \<in> set (words input). \<not> has stopWords w}"
proof -
  let ?keys = "map fst (sortEntries (entries (countWords (words input))))"
  have "set ?keys = {w \<in> set (words input). \<not> has stopWords w}"
    using mset_eq_setD[OF sorted_keys_mset[of "countWords (words input)"]]
      countWords_set[of "words input"] by simp
  moreover have "set (extractKeywords input n) \<subseteq> set ?keys"
    unfolding extractKeywords_def selectKeywords_def slice0_cases by (auto dest: in_set_takeD)
  ultimately show ?thesis by simp
qed

lemma extractKeywords_wordKeywords: "wordKeywords (extractKeywords input n)"
  unfolding wordKeywords_def
proof
  fix w assume "w \<in> set (extractKeywords input n)"
  with extractKeywords_subset have "w \<in> set (words input)" by blast
  from words_chars[OF this] show "w \<noteq> [] \<and> (\<forall>c\<in>set w. isWordChar c)"
    by (auto simp: isWordChar_def isAlnum_def)
qed

lemma map_of_setProp: "map_of (setProp obj w v) = (map_of obj)(w \<mapsto> v)"
  by (induction obj w v rule: setProp.induct) auto

lemma getProp_ordinary: "w \<noteq> ''constructor'' \<Longrightarrow> getProp obj w = map_of obj w"
  by (simp add: getProp_def inherited_def split: option.splits)

lemma map_of_countWord:
  "map_of (countWord obj x) w
   = (if x = w \<and> \<not> has stopWords w then Some (plusOne (orZero (getProp obj w)))
      else map_of obj w)"
  by (simp add: countWord_def map_of_setProp)

lemma foldl_countWord_counts:
  assumes "w \<noteq> ''constructor''" and "\<not> has stopWords w"
  shows "map_of obj w = None \<or> (\<exists>k. map_of obj w = Some (Num k)) \<Longrightarrow>
         map_of (foldl countWord obj ws) w
         = (if count_list ws w = 0 then map_of obj w
            else Some (Num ((case map_of obj w of Some (Num k) \<Rightarrow> k | _ \<Rightarrow> 0)
                            + count_list ws w)))"
proof (induction ws arbitrary: obj)
  case Nil
  then show ?case by simp
next
  case (Cons x ws)
  show ?case
  proof (cases "x = w")
    case True
    from Cons.prems assms
    have s: "map_of (countWord obj x) w
             = Some (Num (Suc (case map_of obj w of Some (Num k) \<Rightarrow> k | _ \<Rightarrow> 0)))"
      unfolding True map_of_countWord by (auto simp: getProp_ordinary)
    from Cons.IH[of "countWord obj x"] s True show ?thesis by simp
  next
    case False
    then have s: "map_of (countWord obj x) w = map_of obj w" by (simp add: map_of_countWord)
    from Cons.IH[of "countWord obj x"] Cons.prems s False show ?thesis by simp
  qed
qed

lemma countWords_counts:
  assumes "w \<noteq> ''constructor''" and "\<not> has stopWords w" and "w \<in> set ws"
  shows "map_of (countWords ws) w = Some (Num (count_list ws w))"
proof -
  from assms(3) have "count_list ws w \<noteq> 0" by (simp add: count_list_0_iff)
  with foldl_countWord_counts[OF assms(1,2), of "[]" ws] show ?thesis
    by (simp add: countWords_def)
qed

lemma countWords_empty: "countWords (words []) = []"
  by (simp add: countWords_def words_def toLowerCase_def)

lemma countWords_entry:
  assumes "''constructor'' \<notin> set ws" and "(w, v) \<in> set (countWords ws)"
  shows "v = Num (count_list ws w)"
proof -
  from assms(2) countWords_distinct[of ws] have m: "map_of (countWords ws) w = Some v"
    by simp
  from assms(2) have "w \<in> fst ` set (countWords ws)" by force
  then have "w \<in> set ws" and s: "\<not> has stopWords w" by (simp_all add: countWords_set)
  with assms(1) have "w \<noteq> ''constructor''" by auto
  from countWords_counts[OF this s \<open>w \<in> set ws\<close>] m show ?thesis by simp
qed

lemma countWords_numeric: "''constructor'' \<notin> set ws \<Longrightarrow> numeric (countWords ws)"
  by (auto simp: numeric_def list_all_iff dest: countWords_entry)

lemma extractKeywords_frequency_order:
  assumes nc: "''constructor'' \<notin> set (words input)"
    and more: "count_list (words input) b < count_list (words input) a"
    and i: "i < length (extractKeywords input n)" "extractKeywords input n ! i = a"
    and j: "j < length (extractKeywords input n)" "extractKeywords input n ! j = b"
  shows "i < j"
proof (rule ccontr)
  assume "\<not> i < j"
  moreover from more i(2) j(2) have "i \<noteq> j" by auto
  ultimately have lt: "j < i" by simp
  let ?E = "sortEntries (entries (countWords (words input)))"
  have e: "extractKeywords input n
           = (if n < 0 then take (length (map fst ?E) - nat (- n)) (map fst ?E)
              else take (nat n) (map fst ?E))"
    by (simp only: extractKeywords_def selectKeywords_def slice0_cases)
  have len: "length (extractKeywords input n) \<le> length ?E"
    unfolding e by simp
  have nth: "extractKeywords input n ! p = fst (?E ! p)"
    if "p < length (extractKeywords input n)" for p
  proof -
    from that len have "p < length ?E" by simp
    moreover from that have "extractKeywords input n ! p = map fst ?E ! p"
      unfolding e by (simp split: if_splits)
    ultimately show ?thesis by simp
  qed
  have m: "mset ?E = mset (countWords (words input))"
    by (simp add: sortEntries_mset entries_mset)
  have cnt: "countOf (?E ! p) = count_list (words input) (fst (?E ! p))"
    if "p < length ?E" for p
  proof -
    from that have "?E ! p \<in> set ?E" by (rule nth_mem)
    with mset_eq_setD[OF m] have "(fst (?E ! p), snd (?E ! p)) \<in> set (countWords (words input))"
      by simp
    from countWords_entry[OF nc this] show ?thesis by (simp add: countOf_def)
  qed
  from countWords_numeric[OF nc] numeric_mset[OF m] have "numeric ?E" by simp
  moreover have "numeric (entries (countWords (words input)))"
    using countWords_numeric[OF nc] numeric_mset[OF entries_mset] by simp
  then have "sorted_wrt (\<lambda>x y. countOf y \<le> countOf x) ?E" by (rule sortEntries_sorted)
  with lt i(1) len have "countOf (?E ! i) \<le> countOf (?E ! j)"
    by (simp add: sorted_wrt_iff_nth_less)
  moreover from i len have "countOf (?E ! i) = count_list (words input) a"
    using cnt[of i] nth[of i] by simp
  moreover from j len have "countOf (?E ! j) = count_list (words input) b"
    using cnt[of j] nth[of j] by simp
  ultimately show False using more by simp
qed

section \<open>The claims settled on concrete inputs\<close>

text \<open>
  C1. The spec has \<open>highlight(text, [])\<close> return the text unchanged, and the pipeline
  with no keyword do the same. The code builds the pattern \<open>\b()\b\<close> from the empty list:
  it matches the empty string at every word boundary, and each such match is replaced by
  four stars. The empty list is what \<open>extractKeywords\<close> returns for a text of stop-words
  only, and for the count 0.
\<close>

theorem highlight_empty_keywords_inserts_markers:
  "highlight ''the'' [] = ''****the****''
   \<and> extractKeywords ''the'' 5 = []
   \<and> highlighted (handleSubmit \<lparr>text = ''the'', keywordsCount = 5, highlighted = []\<rparr>)
       = ''****the****''
   \<and> highlight ''cat'' (extractKeywords ''cat'' 0) = ''****cat****''"
  by code_simp

text \<open>
  C4. A token that occurs more often than another is to come first. For the token
  \<open>constructor\<close> the object \<open>freq\<close> holds no number: the first lookup finds the inherited
  function, and \<open>+ 1\<close> makes a string of it. The comparator then yields NaN, the sort
  leaves the two entries as they were created, and \<open>foo\<close> (once in the text) comes before
  \<open>constructor\<close> (twice).
\<close>

theorem constructor_breaks_frequency_order:
  "words ''foo constructor constructor'' = [''foo'', ''constructor'', ''constructor'']
   \<and> countWords (words ''foo constructor constructor'')
       = [(''foo'', Num 1), (''constructor'', CtorText 2)]
   \<and> count_list (words ''foo constructor constructor'') ''foo'' = 1
   \<and> count_list (words ''foo constructor constructor'') ''constructor'' = 2
   \<and> compareFn (''foo'', Num 1) (''constructor'', CtorText 2) = None
   \<and> extractKeywords ''foo constructor constructor'' 2 = [''foo'', ''constructor'']"
  by code_simp

text \<open>
  C5. Every token outside the stop-word set is to be counted, from 1 on. The token
  \<open>constructor\<close> is not: after its first occurrence \<open>freq\<close> holds for it the source text of
  the function \<open>Object\<close> followed by \<open>1\<close>, which is no number.
\<close>

theorem constructor_count_is_not_a_number:
  "words ''constructor'' = [''constructor'']
   \<and> \<not> has stopWords ''constructor''
   \<and> countWords (words ''constructor'') = [(''constructor'', CtorText 1)]
   \<and> textOf (CtorText 1) = Some ''function Object() { [native code] }1''
   \<and> toNumber (CtorText 1) = None"
  by code_simp

text \<open>
  C6. In the text \<open>catalog cats cat\<close> with the keyword \<open>cat\<close>, only the last word is put
  between stars: the \<open>cat\<close> at the start of \<open>catalog\<close> and of \<open>cats\<close> does not end at a
  word boundary.
\<close>

theorem whole_word_example:
  "highlight ''catalog cats cat'' [''cat''] = ''catalog cats **cat**''
   \<and> matches [''cat''] ''catalog cats cat'' = [(13, 3)]"
  by code_simp

text \<open>
  C9. The underscore separates tokens for the tokenizer and is a word character for
  \<open>\b\<close>. In \<open>cat_dog cat\<close> the tokenizer counts \<open>cat\<close> twice, and the highlighter wraps
  only the second occurrence: the first is followed by the underscore.
\<close>

theorem underscore_disagreement:
  "\<not> isAlnum (CHR ''_'') \<and> isWordChar (CHR ''_'')
   \<and> words ''cat_dog cat'' = [''cat'', ''dog'', ''cat'']
   \<and> countWords (words ''cat_dog cat'') = [(''cat'', Num 2), (''dog'', Num 1)]
   \<and> extractKeywords ''cat_dog cat'' 1 = [''cat'']
   \<and> highlight ''cat_dog cat'' [''cat''] = ''cat_dog **cat**''
   \<and> matches [''cat''] ''cat_dog cat'' = [(8, 3)]"
  by code_simp

section \<open>The claims settled for every input\<close>

text \<open>
  C8. On submission the shell tests the trimmed text, which is empty exactly when every
  character of the text is white space. Then it stores the empty string and leaves text and
  count alone; the pipeline, had it run, would have returned the text itself. Otherwise
  it stores what the highlighter makes of the text and of the keywords that the selector
  takes, for the current count, from the counts of the tokenizer.
\<close>

theorem handleSubmit_short_circuit:
  "(trim (text s) = [] \<longleftrightarrow> (\<forall>c\<in>set (text s). isWhiteSpace c))
   \<and> (trim (text s) = [] \<longrightarrow>
        handleSubmit s = s\<lparr>highlighted := []\<rparr>
        \<and> highlight (text s) (extractKeywords (text s) (keywordsCount s)) = text s)
   \<and> (trim (text s) \<noteq> [] \<longrightarrow>
        handleSubmit s
        = s\<lparr>highlighted :=
              highlight (text s)
                (selectKeywords (countWords (words (text s))) (keywordsCount s))\<rparr>)"
proof -
  have ws: "highlight (text s) (extractKeywords (text s) (keywordsCount s)) = text s"
    if e: "trim (text s) = []"
  proof -
    from e have w: "\<forall>c\<in>set (text s). isWhiteSpace c" by (simp add: trim_empty_iff)
    have "\<forall>c\<in>set (text s). \<not> isAlnum (toLowerCaseChar c)"
    proof
      fix c assume "c \<in> set (text s)"
      with w have "isWhiteSpace c" by simp
      then show "\<not> isAlnum (toLowerCaseChar c)"
        by (auto simp: isWhiteSpace_def toLowerCaseChar_def isAlnum_def isLower_def
            isUpper_def isDigit_def)
    qed
    then have "extractKeywords (text s) (keywordsCount s) = []"
      by (simp add: extractKeywords_def words_no_alnum countWords_def selectKeywords_def
          entries_def slice0_Nil)
    moreover have "replaceAll [[]] None (text s) = text s"
      using w by (intro replaceAll_no_word) (auto simp: isWord_def dest: whiteSpace_not_word)
    ultimately show ?thesis by (simp add: highlight_def alternatives_def)
  qed
  show ?thesis
    using ws by (simp add: trim_empty_iff handleSubmit_def extractKeywords_def Let_def)
qed

theorem handleSubmit_short_circuit_witness:
  "handleSubmit \<lparr>text = ''  '', keywordsCount = 5, highlighted = ''old''\<rparr>
     = \<lparr>text = ''  '', keywordsCount = 5, highlighted = []\<rparr>
   \<and> highlight ''  '' (extractKeywords ''  '' 5) = ''  ''
   \<and> handleSubmit \<lparr>text = ''a Cat cat'', keywordsCount = 5, highlighted = ''old''\<rparr>
     = \<lparr>text = ''a Cat cat'', keywordsCount = 5, highlighted = ''a **Cat** **cat**''\<rparr>"
proof -
  let ?s = "\<lparr>text = ''  '', keywordsCount = 5, highlighted = ''old''\<rparr>"
  let ?t = "\<lparr>text = ''a Cat cat'', keywordsCount = 5, highlighted = ''old''\<rparr>"
  have a: "trim (text ?s) = []" by code_simp
  have b: "trim (text ?t) \<noteq> []" by code_simp
  have c: "highlight ''a Cat cat'' (selectKeywords (countWords (words ''a Cat cat'')) 5)
           = ''a **Cat** **cat**''" by code_simp
  show ?thesis
    using handleSubmit_short_circuit[of ?s] handleSubmit_short_circuit[of ?t] a b c by simp
qed

text \<open>
  C2 as stated fails for a negative count: \<open>slice(0, -1)\<close> drops the last entry only.
\<close>

theorem selectKeywords_negative_count_counterexample:
  "selectKeywords [(''b'', Num 1), (''c'', Num 1)] (- 1) = [''b'']"
  by code_simp

text \<open>
  C2, as the code has it. The selector returns no keyword for the count 0, the first
  \<open>n\<close> keys of the sorted entries for a positive count (all of them when there are no
  more than \<open>n\<close>), and for a negative count the sorted keys without their last \<open>-n\<close>. The
  sorted entries are the entries of the map, and by descending count when every entry
  holds a number.
\<close>

theorem selectKeywords_slice:
  "(n = 0 \<longrightarrow> selectKeywords freq n = [])
   \<and> (0 < n \<longrightarrow> selectKeywords freq n = take (nat n) (map fst (sortEntries (entries freq))))
   \<and> (int (length freq) \<le> n \<longrightarrow> selectKeywords freq n = map fst (sortEntries (entries freq)))
   \<and> (n < 0 \<longrightarrow> selectKeywords freq n
          = take (length freq - nat (- n)) (map fst (sortEntries (entries freq))))
   \<and> mset (sortEntries (entries freq)) = mset freq
   \<and> (numeric freq \<longrightarrow>
        sorted_wrt (\<lambda>a b. countOf b \<le> countOf a) (sortEntries (entries freq)))"
proof -
  have len: "length (map fst (sortEntries (entries freq))) = length freq"
    by (rule sorted_keys_length)
  have "numeric freq \<Longrightarrow> numeric (entries freq)"
    using numeric_mset[OF entries_mset, of freq] by simp
  then have srt: "numeric freq \<longrightarrow>
      sorted_wrt (\<lambda>a b. countOf b \<le> countOf a) (sortEntries (entries freq))"
    by (simp add: sortEntries_sorted)
  have all: "int (length freq) \<le> n \<Longrightarrow>
      selectKeywords freq n = map fst (sortEntries (entries freq))"
    unfolding selectKeywords_def slice0_cases using len by auto
  show ?thesis
    using len srt all
    by (simp add: selectKeywords_def slice0_cases sortEntries_mset entries_mset del: length_map)
qed

theorem selectKeywords_slice_witness:
  "selectKeywords [(''b'', Num 2), (''c'', Num 1), (''d'', Num 3)] 0 = []
   \<and> selectKeywords [(''b'', Num 2), (''c'', Num 1), (''d'', Num 3)] 2 = [''d'', ''b'']
   \<and> selectKeywords [(''b'', Num 2), (''c'', Num 1), (''d'', Num 3)] 5 = [''d'', ''b'', ''c'']
   \<and> selectKeywords [(''b'', Num 2), (''c'', Num 1), (''d'', Num 3)] (- 2) = [''d'']
   \<and> sorted_wrt (\<lambda>a b. countOf b \<le> countOf a)
        (sortEntries (entries [(''b'', Num 2), (''c'', Num 1), (''d'', Num 3)]))"
proof -
  let ?F = "[(''b'', Num 2), (''c'', Num 1), (''d'', Num 3)]"
  have k: "map fst (sortEntries (entries ?F)) = [''d'', ''b'', ''c'']" by code_simp
  have nm: "numeric ?F" by code_simp
  show ?thesis
    using selectKeywords_slice[of 0 ?F] selectKeywords_slice[of 2 ?F]
      selectKeywords_slice[of 5 ?F] selectKeywords_slice[of "- 2" ?F] k nm
    by simp
qed

text \<open>
  C3 as stated fails for a negative count: from the two tokens of \<open>b c\<close> the count -1
  leaves one keyword, more than \<open>max(-1, 0)\<close>.
\<close>

theorem extractKeywords_negative_count_counterexample:
  "\<not> int (length (extractKeywords ''b c'' (- 1))) \<le> max (- 1) 0"
  by code_simp

text \<open>
  C3, as the code has it. For every text and every count the keywords are pairwise
  distinct tokens of the text, none in the stop-word set, each a non-empty run of lower-case
  letters and digits. For a count \<open>n\<close> from 0 on there are at most \<open>max(n, 0)\<close> of them; for a
  negative count there are as many as the text has distinct tokens outside the stop-word
  set, less \<open>-n\<close>.
\<close>

theorem extractKeywords_tokens:
  "distinct (extractKeywords input n)
   \<and> (\<forall>w\<in>set (extractKeywords input n).
         w \<in> set (words input) \<and> \<not> has stopWords w
         \<and> w \<noteq> [] \<and> (\<forall>c\<in>set w. isLower c \<or> isDigit c))
   \<and> (0 \<le> n \<longrightarrow> int (length (extractKeywords input n)) \<le> max n 0)
   \<and> (n < 0 \<longrightarrow> length (extractKeywords input n)
                  = card {w \<in> set (words input). \<not> has stopWords w} - nat (- n))"
proof -
  let ?freq = "countWords (words input)"
  let ?keys = "map fst (sortEntries (entries ?freq))"
  have m: "mset ?keys = mset (map fst ?freq)" by (rule sorted_keys_mset)
  have d: "distinct ?keys"
    using mset_eq_imp_distinct_iff[OF m] countWords_distinct by blast
  have s: "set ?keys = {w \<in> set (words input). \<not> has stopWords w}"
    using mset_eq_setD[OF m] countWords_set[of "words input"] by simp
  have len: "length ?keys = card {w \<in> set (words input). \<not> has stopWords w}"
    using sorted_keys_length[of ?freq] countWords_length[of "words input"] by simp
  have e: "extractKeywords input n
           = (if n < 0 then take (length ?keys - nat (- n)) ?keys else take (nat n) ?keys)"
    by (simp only: extractKeywords_def selectKeywords_def slice0_cases)
  have sub: "set (extractKeywords input n) \<subseteq> set ?keys"
    unfolding e by (auto dest: in_set_takeD)
  have dist: "distinct (extractKeywords input n)"
    unfolding e using d by (simp del: length_map)
  have mem: "w \<in> set (words input) \<and> \<not> has stopWords w
       \<and> w \<noteq> [] \<and> (\<forall>c\<in>set w. isLower c \<or> isDigit c)"
    if "w \<in> set (extractKeywords input n)" for w
  proof -
    from that sub s have "w \<in> set (words input)" and "\<not> has stopWords w" by auto
    then show ?thesis using words_chars[of w input] by simp
  qed
  have pos: "0 \<le> n \<longrightarrow> int (length (extractKeywords input n)) \<le> max n 0"
    unfolding e by (auto simp del: length_map)
  have neg: "n < 0 \<longrightarrow> length (extractKeywords input n)
                  = card {w \<in> set (words input). \<not> has stopWords w} - nat (- n)"
    unfolding e using len by (simp del: length_map)
  from dist mem pos neg show ?thesis by blast
qed

theorem extractKeywords_tokens_witness:
  "extractKeywords ''The cat sat. The Cat ate.'' 2 = [''cat'', ''sat'']
   \<and> distinct [''cat'', ''sat'']
   \<and> ''cat'' \<in> set (words ''The cat sat. The Cat ate.'') \<and> \<not> has stopWords ''cat''
   \<and> isLower (CHR ''c'')
   \<and> int (length [''cat'', ''sat'']) \<le> max 2 0
   \<and> extractKeywords ''The cat sat. The Cat ate.'' (- 1) = [''cat'', ''sat'']
   \<and> card {w \<in> set (words ''The cat sat. The Cat ate.''). \<not> has stopWords w} - nat (- (- 1)) = 2"
proof -
  let ?T = "''The cat sat. The Cat ate.''"
  have a: "extractKeywords ?T 2 = [''cat'', ''sat'']" by code_simp
  have b: "extractKeywords ?T (- 1) = [''cat'', ''sat'']" by code_simp
  have c: "''cat'' \<in> set (extractKeywords ?T 2)" by (simp add: a)
  from extractKeywords_tokens[of ?T 2] c
  have "''cat'' \<in> set (words ?T) \<and> \<not> has stopWords ''cat''
        \<and> (\<forall>c\<in>set ''cat''. isLower c \<or> isDigit c)"
    by blast
  moreover have "\<not> isDigit (CHR ''c'')" by code_simp
  ultimately have d: "''cat'' \<in> set (words ?T) \<and> \<not> has stopWords ''cat'' \<and> isLower (CHR ''c'')"
    by simp
  from extractKeywords_tokens[of ?T 2] a
  have e: "distinct [''cat'', ''sat''] \<and> int (length [''cat'', ''sat'']) \<le> max 2 0"
    by simp
  from extractKeywords_tokens[of ?T "- 1"] b
  have f: "card {w \<in> set (words ?T). \<not> has stopWords w} - nat (- (- 1)) = 2"
    by simp
  from a b d e f show ?thesis by blast
qed

text \<open>
  C7. A keyword list is a list of tokens: so the specification defines it, and the one call
  of \<open>highlight\<close> (line 83) passes what \<open>extractKeywords\<close> returns (line 82). Every token
  is a non-empty run of word characters (\<open>extractKeywords_wordKeywords\<close>), and the
  statement is made for all keywords of that kind. For every text and every non-empty
  keyword list, the highlighted text is the text with its matches put between two pairs of
  stars; without the stars it is the text itself, letter for letter, so that a match keeps
  its own casing and everything else is unchanged; and the matches are exactly the
  whole-word, case-insensitive occurrences of the keywords.
\<close>

theorem highlight_wraps_occurrences:
  "keywords \<noteq> [] \<Longrightarrow> wordKeywords keywords \<Longrightarrow>
   highlight input keywords = render (segments (alternatives keywords) None input)
   \<and> concat (map snd (segments (alternatives keywords) None input)) = input
   \<and> (\<forall>j l. (j, l) \<in> set (matches keywords input) \<longleftrightarrow> occurrence keywords None input j l)"
proof -
  assume ne: "keywords \<noteq> []" and wk: "wordKeywords keywords"
  from ne have a: "alternatives keywords = keywords" by (simp add: alternatives_def)
  have "(j, l) \<in> set (matches keywords input) \<longleftrightarrow> occurrence keywords None input j l" for j l
    using segments_sound[of j l 0 "keywords" None input]
      segments_complete[OF wk, where prev = None and rest = input and j = j and l = l and i = 0]
    by (auto simp: matches_def a)
  then show ?thesis
    by (simp add: highlight_def replaceAll_render segments_concat)
qed

theorem highlight_wraps_occurrences_witness:
  "extractKeywords ''Cat x'' 1 = [''cat'']
   \<and> [''cat''] \<noteq> [] \<and> wordKeywords [''cat'']
   \<and> highlight ''Cat x'' [''cat''] = ''**Cat** x''
   \<and> render (segments (alternatives [''cat'']) None ''Cat x'') = ''**Cat** x''
   \<and> concat (map snd (segments (alternatives [''cat'']) None ''Cat x'')) = ''Cat x''
   \<and> occurrence [''cat''] None ''Cat x'' 0 3
   \<and> (0, 3) \<in> set (matches [''cat''] ''Cat x'')"
proof -
  have k: "extractKeywords ''Cat x'' 1 = [''cat'']" by code_simp
  have w: "wordKeywords [''cat'']" by code_simp
  have n: "[''cat''] \<noteq> ([] :: string list)" by simp
  have r: "render (segments (alternatives [''cat'']) None ''Cat x'') = ''**Cat** x''"
    by code_simp
  have o: "occurrence [''cat''] None ''Cat x'' 0 3" by code_simp
  from highlight_wraps_occurrences[OF n w, of "''Cat x''"] k r o w show ?thesis by simp
qed

end
